theory Spec2Isabelle
  imports Main "HOL-Library.Word"
begin

section \<open>Data model of list.c\<close>

text \<open>
  The C type \<open>int\<close> is a 32-bit two's-complement word: \<open>+\<close> and \<open>-\<close> wrap around,
  \<open>sint\<close> reads the signed value, \<open><s\<close> and \<open>\<le>s\<close> are the signed comparisons.
  Signed overflow, which C leaves undefined, shows up here as wrap-around; the theorems
  below say where a counter stays in range.
\<close>

type_synonym c_int = "32 word"

text \<open>
  Modelled from the spec: the header list.h, with the declarations of \<open>elem\<close>,
  \<open>node_t\<close> and \<open>list_t\<close>, is not among the sources. Section 3 of the specification
  gives a node one signed integer-like value and its successor, and a list the reference
  to its first node; list.c reads the fields \<open>value\<close>, \<open>next\<close> and \<open>head\<close> and prints
  a value with \<open>%d\<close>, so \<open>elem\<close> is \<open>int\<close>.

  A \<open>node_t *\<close> is \<open>node_t option\<close>, with \<open>None\<close> for the null pointer, and a
  \<open>list_t *\<close> is \<open>list_t option\<close>. Every node has one owner (its predecessor, or the
  list), so a pointer is modelled by the node it points to; the chain is finite and
  acyclic, as the invariants of the specification say. An operation that changes the
  list returns the state of the list after the call.
\<close>

type_synonym elem = c_int

datatype node_t = Node (node_value: elem) (node_next: "node_t option")

record list_t =
  head :: "node_t option"

type_synonym list_ptr = "list_t option"

text \<open>
  Ways in which a call does not return to its caller: \<open>exit(EXIT_FAILURE)\<close>, an access
  outside an allocated block, and a loop that never ends.
\<close>

datatype abort = Exit_Failure | Out_Of_Bounds | No_Return

text \<open>
  The elements of the chain starting at a pointer, in order, the chain that holds given
  elements, and the elements of the list behind a handle. They are used to state the
  theorems; no operation of the model calls them.
\<close>

fun elems :: "node_t option \<Rightarrow> elem list" where
  "elems None = []"
| "elems (Some (Node v nx)) = v # elems nx"

fun chain_of :: "elem list \<Rightarrow> node_t option" where
  "chain_of [] = None"
| "chain_of (v # vs) = Some (Node v (chain_of vs))"

definition contents :: "list_ptr \<Rightarrow> elem list" where
  "contents list = (case list of None \<Rightarrow> [] | Some l \<Rightarrow> elems (head l))"

section \<open>Construction and destruction\<close>

text \<open>
  \<open>list_alloc\<close>: the argument is the answer of \<open>malloc\<close> (\<open>True\<close> when it returns a
  block). The message on stderr is not modelled.
\<close>

definition list_alloc :: "bool \<Rightarrow> list_ptr" where
  "list_alloc malloc_ok =
     (if \<not> malloc_ok then None else Some \<lparr>head = None\<rparr>)"

text \<open>
  \<open>list_free\<close>: the model returns the number of blocks handed to \<open>free\<close>.
\<close>

fun free_loop :: "node_t option \<Rightarrow> nat \<Rightarrow> nat" where
  "free_loop None freed = freed"
| "free_loop (Some (Node v next_node)) freed = free_loop next_node (freed + 1)"

definition list_free :: "list_ptr \<Rightarrow> nat" where
  "list_free list =
     (case list of
        None \<Rightarrow> 0
      | Some l \<Rightarrow> free_loop (head l) 0 + 1)"

section \<open>Formatting\<close>

text \<open>
  The \<open>%d\<close> conversion of the C library: the decimal digits of the value, most
  significant first, after a minus sign when it is negative.
\<close>

definition digit_char :: "nat \<Rightarrow> char" where
  "digit_char d = ''0123456789'' ! d"

fun dec_digits :: "nat \<Rightarrow> string" where
  "dec_digits n =
     (if n < 10 then [digit_char n]
      else dec_digits (n div 10) @ [digit_char (n mod 10)])"

declare dec_digits.simps [simp del]

definition fmt_d :: "c_int \<Rightarrow> string" where
  "fmt_d v =
     (if sint v < 0 then CHR ''-'' # dec_digits (nat (- sint v))
      else dec_digits (nat (sint v)))"

text \<open>
  \<open>list_print\<close>: the model returns the text written to standard output.
\<close>

fun print_loop :: "node_t option \<Rightarrow> string \<Rightarrow> string" where
  "print_loop None out = out"
| "print_loop (Some (Node v nx)) out = print_loop nx (out @ fmt_d v @ '' ->'')"

definition list_print :: "list_ptr \<Rightarrow> string" where
  "list_print list =
     (case list of
        None \<Rightarrow> ''LIST IS NULL'' @ [CHR 0x0A]
      | Some l \<Rightarrow>
          (case head l of
             None \<Rightarrow> ''LIST IS EMPTY'' @ [CHR 0x0A]
           | Some n \<Rightarrow> print_loop (Some n) [] @ ''NULL'' @ [CHR 0x0A]))"

section \<open>listToString\<close>

text \<open>
  \<open>snprintf(tmp, sz, "%d->", value)\<close> stores at most \<open>sz - 1\<close> characters and the
  terminating zero byte, and returns the length of the whole formatted text.
\<close>

definition snprintf_d_arrow :: "nat \<Rightarrow> elem \<Rightarrow> string \<times> c_int" where
  "snprintf_d_arrow sz v =
     (let s = fmt_d v @ ''->''
      in (take (sz - 1) s @ [CHR 0x00], word_of_nat (length s)))"

text \<open>
  The buffer is the block's capacity, the count \<open>used\<close> and the bytes written so far.
  \<open>size_t\<close> is modelled by \<open>nat\<close>: a capacity near \<open>2 ^ 64\<close> is beyond any address space.

  The inner loop \<open>while (used + n + 1 >= newcap) newcap *= 2\<close> does not end when
  \<open>newcap\<close> is 0, so it is a partial function: \<open>None\<close> means that it never returns.
\<close>

partial_function (option) grow_newcap :: "nat \<Rightarrow> nat \<Rightarrow> nat option" where
  "grow_newcap need newcap =
     (if need \<ge> newcap then grow_newcap need (newcap * 2) else Some newcap)"

declare grow_newcap.simps [code]

text \<open>
  Lines 85 to 95: the capacity after the growth step. \<open>grant\<close> is the allocator: whether
  a request for a block of that many bytes is served. \<open>Inr None\<close> is the return of
  \<open>NULL\<close> after a failed \<open>realloc\<close>.
\<close>

definition grow_buffer :: "(nat \<Rightarrow> bool) \<Rightarrow> nat \<Rightarrow> nat \<Rightarrow> abort + nat option" where
  "grow_buffer grant capacity need =
     (if need \<ge> capacity then
        (case grow_newcap need (capacity * 2) of
           None \<Rightarrow> Inl No_Return
         | Some newcap \<Rightarrow> if \<not> grant newcap then Inr None else Inr (Some newcap))
      else Inr (Some capacity))"

text \<open>
  \<open>memcpy(buf + used, src, n); used += n; buf[used] = '\0'\<close> on a block of \<open>capacity\<close>
  bytes: the \<open>n\<close> bytes and the zero byte must lie inside the block, and the \<open>n\<close>
  bytes read must lie inside the source.
\<close>

definition write_bytes :: "nat \<Rightarrow> string \<Rightarrow> nat \<Rightarrow> string \<Rightarrow> nat \<Rightarrow> abort + string" where
  "write_bytes capacity buf used src n =
     (if capacity < used + n + 1 \<or> length src < n then Inl Out_Of_Bounds
      else Inr (take used buf @ take n src))"

text \<open>
  Lines 102 to 117: the literal \<open>NULL\<close>, four characters and a zero byte in memory, is
  appended; \<open>tail_len\<close> is its \<open>strlen\<close>.
\<close>

definition append_tail :: "(nat \<Rightarrow> bool) \<Rightarrow> nat \<Rightarrow> nat \<Rightarrow> string \<Rightarrow> abort + string option" where
  "append_tail grant capacity used buf =
     (let tail = ''NULL'';
          tail_len = length tail
      in if used + tail_len + 1 \<ge> capacity then
           (if \<not> grant (used + tail_len + 1) then Inr None
            else (case write_bytes (used + tail_len + 1) buf used (tail @ [CHR 0x00]) tail_len of
                    Inl e \<Rightarrow> Inl e
                  | Inr b \<Rightarrow> Inr (Some b)))
         else (case write_bytes capacity buf used (tail @ [CHR 0x00]) tail_len of
                 Inl e \<Rightarrow> Inl e
               | Inr b \<Rightarrow> Inr (Some b)))"

fun to_string_loop ::
  "(nat \<Rightarrow> bool) \<Rightarrow> node_t option \<Rightarrow> nat \<Rightarrow> nat \<Rightarrow> string \<Rightarrow> abort + string option" where
  "to_string_loop grant None capacity used buf = append_tail grant capacity used buf"
| "to_string_loop grant (Some (Node v nx)) capacity used buf =
     (case snprintf_d_arrow 32 v of
        (tmp, n) \<Rightarrow>
          if n <s 0 then Inr None
          else
            (case grow_buffer grant capacity (used + nat (sint n) + 1) of
               Inl e \<Rightarrow> Inl e
             | Inr None \<Rightarrow> Inr None
             | Inr (Some capacity') \<Rightarrow>
                 (case write_bytes capacity' buf used tmp (nat (sint n)) of
                    Inl e \<Rightarrow> Inl e
                  | Inr buf' \<Rightarrow> to_string_loop grant nx capacity' (used + nat (sint n)) buf')))"

text \<open>
  Two allocators: one that serves every request and one that serves none.
\<close>

definition unlimited :: "nat \<Rightarrow> bool" where
  "unlimited n = True"

definition exhausted :: "nat \<Rightarrow> bool" where
  "exhausted n = False"

definition listToString :: "(nat \<Rightarrow> bool) \<Rightarrow> list_ptr \<Rightarrow> abort + string option" where
  "listToString grant list =
     (case list of
        None \<Rightarrow> Inr None
      | Some l \<Rightarrow>
          (let capacity = 256; used = 0
           in if \<not> grant capacity then Inr None
              else to_string_loop grant (head l) capacity used []))"

section \<open>Length and insertion\<close>

fun length_loop :: "node_t option \<Rightarrow> c_int \<Rightarrow> c_int" where
  "length_loop None count = count"
| "length_loop (Some (Node v nx)) count = length_loop nx (count + 1)"

definition list_length :: "list_ptr \<Rightarrow> c_int" where
  "list_length list = (case list of None \<Rightarrow> 0 | Some l \<Rightarrow> length_loop (head l) 0)"

text \<open>
  \<open>create_node\<close>: the first argument is the answer of \<open>malloc\<close>. On failure the process
  exits.
\<close>

definition create_node :: "bool \<Rightarrow> elem \<Rightarrow> abort + node_t" where
  "create_node malloc_ok v =
     (if \<not> malloc_ok then Inl Exit_Failure else Inr (Node v None))"

text \<open>
  Lines 155 to 159: the cursor starts at a node (the head is not null there), walks to
  the node without successor and stores the new node in its \<open>next\<close>. The result is the
  node the cursor started at, after the store.
\<close>

fun add_to_back_loop :: "node_t \<Rightarrow> node_t \<Rightarrow> node_t" where
  "add_to_back_loop (Node cv None) new_node = Node cv (Some new_node)"
| "add_to_back_loop (Node cv (Some cn)) new_node = Node cv (Some (add_to_back_loop cn new_node))"

definition list_add_to_back :: "bool \<Rightarrow> list_ptr \<Rightarrow> elem \<Rightarrow> abort + list_ptr" where
  "list_add_to_back malloc_ok list v =
     (case list of
        None \<Rightarrow> Inr None
      | Some l \<Rightarrow>
          (case create_node malloc_ok v of
             Inl e \<Rightarrow> Inl e
           | Inr new_node \<Rightarrow>
               (case head l of
                  None \<Rightarrow> Inr (Some (l\<lparr>head := Some new_node\<rparr>))
                | Some h \<Rightarrow> Inr (Some (l\<lparr>head := Some (add_to_back_loop h new_node)\<rparr>)))))"

definition list_add_to_front :: "bool \<Rightarrow> list_ptr \<Rightarrow> elem \<Rightarrow> abort + list_ptr" where
  "list_add_to_front malloc_ok list v =
     (case list of
        None \<Rightarrow> Inr None
      | Some l \<Rightarrow>
          (case create_node malloc_ok v of
             Inl e \<Rightarrow> Inl e
           | Inr new_node \<Rightarrow>
               Inr (Some (l\<lparr>head := Some (Node (node_value new_node) (head l))\<rparr>))))"

text \<open>
  Lines 186 to 203: the result is the chain from the cursor on, after the call. The node
  is created only once the cursor has stopped on a node.
\<close>

fun add_at_index_loop ::
  "bool \<Rightarrow> elem \<Rightarrow> c_int \<Rightarrow> node_t option \<Rightarrow> c_int \<Rightarrow> abort + node_t option" where
  "add_at_index_loop malloc_ok v index None pos = Inr None"
| "add_at_index_loop malloc_ok v index (Some (Node cv cn)) pos =
     (if pos <s index - 1 then
        (case add_at_index_loop malloc_ok v index cn (pos + 1) of
           Inl e \<Rightarrow> Inl e
         | Inr cn' \<Rightarrow> Inr (Some (Node cv cn')))
      else
        (case create_node malloc_ok v of
           Inl e \<Rightarrow> Inl e
         | Inr new_node \<Rightarrow> Inr (Some (Node cv (Some (Node (node_value new_node) cn))))))"

definition list_add_at_index :: "bool \<Rightarrow> list_ptr \<Rightarrow> elem \<Rightarrow> c_int \<Rightarrow> abort + list_ptr" where
  "list_add_at_index malloc_ok list v index =
     (case list of
        None \<Rightarrow> Inr None
      | Some l \<Rightarrow>
          if index <s 1 then Inr (Some l)
          else if index = 1 then list_add_to_front malloc_ok (Some l) v
          else
            (case add_at_index_loop malloc_ok v index (head l) 1 of
               Inl e \<Rightarrow> Inl e
             | Inr h \<Rightarrow> Inr (Some (l\<lparr>head := h\<rparr>))))"

section \<open>Removal\<close>

text \<open>
  A removal returns the value and leaves the list changed: the model returns both.

  Lines 218 to 226: the cursor is on a node that has a successor. The arguments are the
  cursor's value and its successor; the result is the removed value and the cursor's
  node after the store.
\<close>

fun remove_from_back_loop :: "elem \<Rightarrow> node_t \<Rightarrow> elem \<times> node_t" where
  "remove_from_back_loop cv (Node lv None) = (lv, Node cv None)"
| "remove_from_back_loop cv (Node nv (Some nn)) =
     (case remove_from_back_loop nv nn of (v, c) \<Rightarrow> (v, Node cv (Some c)))"

definition list_remove_from_back :: "list_ptr \<Rightarrow> elem \<times> list_ptr" where
  "list_remove_from_back list =
     (case list of
        None \<Rightarrow> (- 1, None)
      | Some l \<Rightarrow>
          (case head l of
             None \<Rightarrow> (- 1, Some l)
           | Some (Node hv None) \<Rightarrow> (hv, Some (l\<lparr>head := None\<rparr>))
           | Some (Node hv (Some hn)) \<Rightarrow>
               (case remove_from_back_loop hv hn of
                  (v, c) \<Rightarrow> (v, Some (l\<lparr>head := Some c\<rparr>)))))"

definition list_remove_from_front :: "list_ptr \<Rightarrow> elem \<times> list_ptr" where
  "list_remove_from_front list =
     (case list of
        None \<Rightarrow> (- 1, None)
      | Some l \<Rightarrow>
          (case head l of
             None \<Rightarrow> (- 1, Some l)
           | Some to_remove \<Rightarrow>
               (node_value to_remove, Some (l\<lparr>head := node_next to_remove\<rparr>))))"

text \<open>
  Lines 251 to 264: the result is the returned value and the chain from the cursor on.
\<close>

fun remove_at_index_loop :: "c_int \<Rightarrow> node_t option \<Rightarrow> c_int \<Rightarrow> elem \<times> node_t option" where
  "remove_at_index_loop index None pos = (- 1, None)"
| "remove_at_index_loop index (Some (Node cv cn)) pos =
     (if pos <s index - 1 then
        (case remove_at_index_loop index cn (pos + 1) of
           (v, cn') \<Rightarrow> (v, Some (Node cv cn')))
      else
        (case cn of
           None \<Rightarrow> (- 1, Some (Node cv None))
         | Some to_remove \<Rightarrow> (node_value to_remove, Some (Node cv (node_next to_remove)))))"

definition list_remove_at_index :: "list_ptr \<Rightarrow> c_int \<Rightarrow> elem \<times> list_ptr" where
  "list_remove_at_index list index =
     (case list of
        None \<Rightarrow> (- 1, None)
      | Some l \<Rightarrow>
          if head l = None then (- 1, Some l)
          else if index <s 1 then (- 1, Some l)
          else if index = 1 then list_remove_from_front (Some l)
          else
            (case remove_at_index_loop index (head l) 1 of
               (v, h) \<Rightarrow> (v, Some (l\<lparr>head := h\<rparr>))))"

section \<open>Queries\<close>

fun is_in_loop :: "node_t option \<Rightarrow> elem \<Rightarrow> bool" where
  "is_in_loop None v = False"
| "is_in_loop (Some (Node cv cn)) v = (if cv = v then True else is_in_loop cn v)"

definition list_is_in :: "list_ptr \<Rightarrow> elem \<Rightarrow> bool" where
  "list_is_in list v = (case list of None \<Rightarrow> False | Some l \<Rightarrow> is_in_loop (head l) v)"

fun get_elem_at_loop :: "node_t option \<Rightarrow> c_int \<Rightarrow> c_int \<Rightarrow> elem" where
  "get_elem_at_loop None pos index = - 1"
| "get_elem_at_loop (Some (Node cv cn)) pos index =
     (if pos = index then cv else get_elem_at_loop cn (pos + 1) index)"

definition list_get_elem_at :: "list_ptr \<Rightarrow> c_int \<Rightarrow> elem" where
  "list_get_elem_at list index =
     (case list of
        None \<Rightarrow> - 1
      | Some l \<Rightarrow> if index <s 1 then - 1 else get_elem_at_loop (head l) 1 index)"

fun get_index_of_loop :: "node_t option \<Rightarrow> c_int \<Rightarrow> elem \<Rightarrow> c_int" where
  "get_index_of_loop None pos v = - 1"
| "get_index_of_loop (Some (Node cv cn)) pos v =
     (if cv = v then pos else get_index_of_loop cn (pos + 1) v)"

definition list_get_index_of :: "list_ptr \<Rightarrow> elem \<Rightarrow> c_int" where
  "list_get_index_of list v =
     (case list of None \<Rightarrow> - 1 | Some l \<Rightarrow> get_index_of_loop (head l) 1 v)"

section \<open>Sequences of calls\<close>

text \<open>
  The caller of the specification's properties: \<open>list_add_to_back\<close> with each value in
  turn, every \<open>malloc\<close> succeeding, on a list fresh from \<open>list_alloc\<close>; and
  \<open>list_remove_from_back\<close> a number of times.
\<close>

fun add_all_to_back :: "list_ptr \<Rightarrow> elem list \<Rightarrow> abort + list_ptr" where
  "add_all_to_back list [] = Inr list"
| "add_all_to_back list (v # vs) =
     (case list_add_to_back True list v of
        Inl e \<Rightarrow> Inl e
      | Inr list' \<Rightarrow> add_all_to_back list' vs)"

definition build_list :: "elem list \<Rightarrow> abort + list_ptr" where
  "build_list vs = add_all_to_back (list_alloc True) vs"

fun remove_from_back_times :: "nat \<Rightarrow> list_ptr \<Rightarrow> list_ptr" where
  "remove_from_back_times 0 list = list"
| "remove_from_back_times (Suc k) list = remove_from_back_times k (snd (list_remove_from_back list))"

section \<open>The format of the specification\<close>

text \<open>
  The specification's serialisation of the elements \<open>v1, ..., vk\<close>: each value in
  decimal followed by an arrow, then the terminator token; \<open>NULL\<close> alone for no
  elements. The model of \<open>listToString\<close> above does not use it.
\<close>

fun to_string_spec :: "elem list \<Rightarrow> string" where
  "to_string_spec [] = ''NULL''"
| "to_string_spec (v # vs) = fmt_d v @ ''->'' @ to_string_spec vs"

text \<open>
  The same chain with a gap between each value and its arrow: with no gap it is
  \<open>to_string_spec\<close>, with one space it is the line \<open>list_print\<close> writes.
\<close>

fun chain_text :: "string \<Rightarrow> elem list \<Rightarrow> string" where
  "chain_text gap [] = ''NULL''"
| "chain_text gap (v # vs) = fmt_d v @ gap @ ''->'' @ chain_text gap vs"

section \<open>The requests of listToString to the allocator\<close>



section \<open>Facts about the model\<close>

subsection \<open>Chains and machine integers\<close>

lemma elems_chain_of [simp]: "elems (chain_of vs) = vs"
  by (induction vs) auto

lemma chain_of_elems [simp]: "chain_of (elems p) = p"
  by (induction p rule: elems.induct) auto

lemma sint_succ: 
  assumes "sint (p :: c_int) < sint (q :: c_int)" shows "sint (p + 1) = sint p + 1"
proof -
  have a: "sint q < 2 ^ 31" using sint_lt [of q] by simp
  have b: "- (2 ^ 31) \<le> sint p" using sint_ge [of p] by simp
  have "signed_take_bit (31::nat) (sint p + 1) = sint p + 1"
    using assms a b by (intro signed_take_bit_int_eq_self) auto
  then show ?thesis by (simp add: sint_word_ariths)
qed

lemma sint_pred:
  assumes "1 \<le> sint (q :: c_int)" shows "sint (q - 1) = sint q - 1"
proof -
  have a: "sint q < 2 ^ 31" using sint_lt [of q] by simp
  have "signed_take_bit (31::nat) (sint q - 1) = sint q - 1"
    using assms a by (intro signed_take_bit_int_eq_self) auto
  then show ?thesis by (simp add: sint_word_ariths)
qed

lemma sint_of_nat_c_int: 
  assumes "n < 2 ^ 31" shows "sint (word_of_nat n :: c_int) = int n"
proof -
  have "signed_take_bit (31::nat) (int n) = int n"
    using assms by (intro signed_take_bit_int_eq_self) auto
  then show ?thesis by (simp add: signed_of_nat)
qed

lemma length_loop_count: "length_loop p c = c + word_of_nat (length (elems p))"
  by (induction p c rule: length_loop.induct) auto

lemma list_length_contents: "list_length list = word_of_nat (length (contents list))"
  by (simp add: list_length_def contents_def length_loop_count split: option.split)

lemma add_to_back_loop_elems:
  "elems (Some (add_to_back_loop h n)) = elems (Some h) @ elems (Some n)"
  by (induction h n rule: add_to_back_loop.induct) auto

lemma list_add_to_back_contents:
  "list_add_to_back True (Some l) v = Inr (Some l') \<Longrightarrow> contents (Some l') = contents (Some l) @ [v]"
  by (auto simp: list_add_to_back_def create_node_def contents_def add_to_back_loop_elems
      split: option.splits)

lemma list_add_to_back_returns:
  "\<exists>l'. list_add_to_back True (Some l) v = Inr (Some l')"
  by (auto simp: list_add_to_back_def create_node_def split: option.splits)

lemma add_all_to_back_contents:
  "\<exists>l'. add_all_to_back (Some l) vs = Inr (Some l') \<and> contents (Some l') = contents (Some l) @ vs"
proof (induction vs arbitrary: l)
  case Nil
  then show ?case by simp
next
  case (Cons v vs)
  obtain l1 where l1: "list_add_to_back True (Some l) v = Inr (Some l1)"
    using list_add_to_back_returns by blast
  from Cons.IH [of l1] obtain l' where
    "add_all_to_back (Some l1) vs = Inr (Some l')" "contents (Some l') = contents (Some l1) @ vs"
    by blast
  with l1 list_add_to_back_contents [OF l1] show ?case by simp
qed

lemma build_list_contents:
  "\<exists>l. build_list vs = Inr (Some l) \<and> contents (Some l) = vs"
  using add_all_to_back_contents [of "\<lparr>head = None\<rparr>" vs]
  by (simp add: build_list_def list_alloc_def contents_def)

lemma get_elem_at_loop_nth:
  "sint pos \<le> sint index \<Longrightarrow>
   get_elem_at_loop p pos index =
     (if nat (sint index - sint pos) < length (elems p) then elems p ! nat (sint index - sint pos)
      else - 1)"
proof (induction p pos index rule: get_elem_at_loop.induct)
  case (1 pos index)
  then show ?case by simp
next
  case (2 cv cn pos index)
  show ?case
  proof (cases "pos = index")
    case True
    then show ?thesis by simp
  next
    case False
    with 2 have lt: "sint pos < sint index" by (simp add: word_eq_iff_signed [where ?'a = int] less_le)
    then have s: "sint (pos + 1) = sint pos + 1" by (rule sint_succ)
    have "nat (sint index - sint pos) = Suc (nat (sint index - (sint pos + 1)))"
      using lt by simp
    with 2 False lt s show ?thesis by simp
  qed
qed

lemma sint_one_c_int: "sint (1 :: c_int) = 1"
  by simp

lemma list_get_elem_at_nth:
  assumes "1 \<le> sint i" and "nat (sint i) \<le> length (contents (Some l))"
  shows "list_get_elem_at (Some l) i = contents (Some l) ! (nat (sint i) - 1)"
proof -
  have k: "nat (sint i - sint (1 :: c_int)) = nat (sint i) - 1"
    using assms(1) by (simp add: nat_diff_distrib')
  have "nat (sint i) - 1 < length (elems (head l))"
    using assms by (simp add: contents_def)
  with get_elem_at_loop_nth [of 1 i "head l"] assms(1) k show ?thesis
    by (simp add: list_get_elem_at_def contents_def word_sless_alt)
qed


subsection \<open>Formatting and the string buffer\<close>

lemma length_dec_digits: "0 < k \<Longrightarrow> n < 10 ^ k \<Longrightarrow> length (dec_digits n) \<le> k"
proof (induction n arbitrary: k rule: dec_digits.induct)
  case (1 n)
  show ?case
  proof (cases "n < 10")
    case True
    with 1(2) show ?thesis by (simp add: dec_digits.simps [of n])
  next
    case False
    obtain j where k: "k = Suc j" using 1(2) by (cases k) auto
    have "0 < j" using False 1(3) k by (cases j) auto
    moreover have "n div 10 < 10 ^ j" using 1(3) k by (simp add: less_mult_imp_div_less)
    ultimately have "length (dec_digits (n div 10)) \<le> j" using 1(1) [OF False] by simp
    with False k show ?thesis by (simp add: dec_digits.simps [of n])
  qed
qed

lemma length_fmt_d: "length (fmt_d v) \<le> 11"
proof -
  have a: "sint v < 2 ^ 31" using sint_lt [of v] by simp
  have b: "- (2 ^ 31) \<le> sint v" using sint_ge [of v] by simp
  have "nat (- sint v) < 10 ^ 10" using b by simp
  then have n: "length (dec_digits (nat (- sint v))) \<le> 10"
    using length_dec_digits [of 10] by simp
  have "nat (sint v) < 10 ^ 10" using a by simp
  then have p: "length (dec_digits (nat (sint v))) \<le> 10"
    using length_dec_digits [of 10] by simp
  from n p show ?thesis by (simp add: fmt_d_def)
qed

lemma snprintf_d_arrow_fits:
  "snprintf_d_arrow 32 v = (fmt_d v @ ''->'' @ [CHR 0x00], word_of_nat (length (fmt_d v) + 2))"
  using length_fmt_d [of v] by (simp add: snprintf_d_arrow_def Let_def)

lemma sint_snprintf_count:
  "sint (word_of_nat (length (fmt_d v) + 2) :: c_int) = int (length (fmt_d v)) + 2"
proof -
  have "length (fmt_d v) + 2 < 2 ^ 31" using length_fmt_d [of v] by simp
  from sint_of_nat_c_int [OF this] show ?thesis by simp
qed

lemma grow_newcap_returns:
  "0 < newcap \<Longrightarrow> \<exists>c. grow_newcap need newcap = Some c \<and> need < c"
proof (induction "Suc need - newcap" arbitrary: newcap rule: less_induct)
  case less
  show ?case
  proof (cases "need \<ge> newcap")
    case True
    have "Suc need - newcap * 2 < Suc need - newcap" using True less(2) by simp
    from less(1) [OF this] less(2) obtain c where
      "grow_newcap need (newcap * 2) = Some c" "need < c" by auto
    with True show ?thesis by (subst grow_newcap.simps) simp
  next
    case False
    then show ?thesis by (subst grow_newcap.simps) simp
  qed
qed


lemma grow_buffer_granted:
  assumes "0 < capacity" and "\<And>n. grant n"
  shows "\<exists>c. grow_buffer grant capacity need = Inr (Some c) \<and> need < c"
proof (cases "need \<ge> capacity")
  case True
  obtain c where "grow_newcap need (capacity * 2) = Some c" "need < c"
    using grow_newcap_returns [of "capacity * 2" need] assms by auto
  with True assms(2) show ?thesis by (simp add: grow_buffer_def)
next
  case False
  then show ?thesis by (simp add: grow_buffer_def)
qed


lemma append_tail_granted:
  assumes "used = length buf" and "used < capacity" and "\<And>n. grant n"
  shows "append_tail grant capacity used buf = Inr (Some (buf @ ''NULL''))"
  using assms by (simp add: append_tail_def write_bytes_def Let_def)


lemma snprintf_d_arrow_32:
  "\<exists>n. snprintf_d_arrow 32 v = (fmt_d v @ ''->'' @ [CHR 0x00], n)
     \<and> nat (sint n) = length (fmt_d v) + 2 \<and> \<not> n <s 0"
proof -
  let ?n = "word_of_nat (length (fmt_d v) + 2) :: c_int"
  have "sint ?n = int (length (fmt_d v)) + 2" by (rule sint_snprintf_count)
  then have "nat (sint ?n) = length (fmt_d v) + 2" and "\<not> ?n <s 0"
    by (simp_all add: word_sless_alt)
  with snprintf_d_arrow_fits [of v] show ?thesis by blast
qed

lemma to_string_loop_step:
  "to_string_loop grant (Some (Node v nx)) capacity (length buf) buf =
     (case grow_buffer grant capacity (length buf + (length (fmt_d v) + 2) + 1) of
        Inl e \<Rightarrow> Inl e
      | Inr None \<Rightarrow> Inr None
      | Inr (Some c) \<Rightarrow>
          (if c < length buf + (length (fmt_d v) + 2) + 1 then Inl Out_Of_Bounds
           else to_string_loop grant nx c (length buf + (length (fmt_d v) + 2))
                  (buf @ fmt_d v @ ''->'')))"
proof -
  obtain n where sn: "snprintf_d_arrow 32 v = (fmt_d v @ ''->'' @ [CHR 0x00], n)"
    and n: "nat (sint n) = length (fmt_d v) + 2" and neg: "\<not> n <s 0"
    using snprintf_d_arrow_32 by blast
  show ?thesis
    by (simp add: sn n neg write_bytes_def split: sum.split option.split)
qed


lemma to_string_loop_granted:
  assumes g: "\<And>n. grant n"
  shows "length buf < capacity \<Longrightarrow>
   to_string_loop grant p capacity (length buf) buf
     = Inr (Some (buf @ to_string_spec (elems p)))"
proof (induction p arbitrary: capacity buf rule: elems.induct)
  case 1
  then show ?case using append_tail_granted [of "length buf" buf capacity grant, OF _ _ g]
    by simp
next
  case (2 v nx)
  let ?need = "length buf + (length (fmt_d v) + 2) + 1"
  let ?buf = "buf @ fmt_d v @ ''->''"
  from grow_buffer_granted [of capacity grant ?need, OF _ g] 2(2)
  obtain c where c: "grow_buffer grant capacity ?need = Inr (Some c)" "?need < c"
    by auto
  have u: "length buf + (length (fmt_d v) + 2) = length ?buf" by simp
  have "length ?buf < c" using c(2) by simp
  then have
    "to_string_loop grant nx c (length ?buf) ?buf
       = Inr (Some (?buf @ to_string_spec (elems nx)))"
    by (rule "2.IH")
  then have
    "to_string_loop grant nx c (length buf + (length (fmt_d v) + 2)) ?buf
       = Inr (Some (buf @ to_string_spec (elems (Some (Node v nx)))))"
    unfolding u by simp
  with c show ?case by (simp add: to_string_loop_step del: to_string_loop.simps)
qed


lemma listToString_granted:
  "listToString unlimited (Some l) = Inr (Some (to_string_spec (contents (Some l))))"
  using to_string_loop_granted [of unlimited "[]" 256 "head l"]
  by (simp add: listToString_def contents_def unlimited_def)


subsection \<open>The printed text\<close>

lemma digit_char_no_space: "d < 10 \<Longrightarrow> digit_char d \<noteq> CHR '' ''"
proof -
  assume "d < 10"
  then have "d \<in> {0, 1, 2, 3, 4, 5, 6, 7, 8, 9}" by auto
  then show ?thesis by (auto simp: digit_char_def)
qed

lemma dec_digits_no_space: "CHR '' '' \<notin> set (dec_digits n)"
proof (induction n rule: dec_digits.induct)
  case (1 n)
  show ?case
  proof (cases "n < 10")
    case True
    then show ?thesis using digit_char_no_space [of n] by (simp add: dec_digits.simps [of n])
  next
    case False
    have "n mod 10 < 10" by simp
    from digit_char_no_space [OF this] 1 [OF False] False show ?thesis
      by (simp add: dec_digits.simps [of n])
  qed
qed

lemma fmt_d_no_space: "filter (\<lambda>c. c \<noteq> CHR '' '') (fmt_d v) = fmt_d v"
  using dec_digits_no_space by (auto simp: fmt_d_def filter_id_conv)

lemma print_loop_out:
  "print_loop p out = out @ concat (map (\<lambda>v. fmt_d v @ '' ->'') (elems p))"
  by (induction p out rule: print_loop.induct) auto

lemma filter_print_chain:
  "filter (\<lambda>c. c \<noteq> CHR '' '') (concat (map (\<lambda>v. fmt_d v @ '' ->'') vs) @ ''NULL'' @ [CHR 0x0A])
     = to_string_spec vs @ [CHR 0x0A]"
  by (induction vs) (auto simp: fmt_d_no_space)

lemma list_print_nonempty:
  "head l \<noteq> None \<Longrightarrow>
   list_print (Some l) = concat (map (\<lambda>v. fmt_d v @ '' ->'') (contents (Some l))) @ ''NULL'' @ [CHR 0x0A]"
  by (auto simp: list_print_def contents_def print_loop_out split: option.split)

subsection \<open>Insertion\<close>

lemma list_t_eq: "(l :: list_t) = \<lparr>head = head l\<rparr>"
  by simp

lemma chain_of_eq_iff: "chain_of xs = p \<longleftrightarrow> xs = elems p"
  by auto

lemma elems_Some: "elems (Some n) = node_value n # elems (node_next n)"
  by (cases n) simp

lemma add_to_back_loop_chain:
  "Some (add_to_back_loop h (Node v None)) = chain_of (elems (Some h) @ [v])"
  by (induction h "Node v None" rule: add_to_back_loop.induct) (auto simp: elems_Some)

lemma c_int_index_cases:
  "sint (index :: c_int) < 1 \<or> index = 1 \<or> 2 \<le> sint index"
proof -
  have "index = 1" if "sint index = 1"
    using that by (simp add: word_eq_iff_signed [where ?'a = int])
  then show ?thesis by fastforce
qed

lemma list_add_to_back_result:
  "list_add_to_back ok (Some l) v =
     (if ok then Inr (Some \<lparr>head = chain_of (contents (Some l) @ [v])\<rparr>) else Inl Exit_Failure)"
  by (cases "head l"; cases l)
     (auto simp: list_add_to_back_def create_node_def contents_def add_to_back_loop_chain
       split: node_t.split)

lemma list_add_to_front_result:
  "list_add_to_front ok (Some l) v =
     (if ok then Inr (Some \<lparr>head = chain_of (v # contents (Some l))\<rparr>) else Inl Exit_Failure)"
  by (cases l) (auto simp: list_add_to_front_def create_node_def contents_def)

lemma add_at_index_loop_chain:
  assumes "2 \<le> sint index"
  shows "sint pos \<le> sint index - 1 \<Longrightarrow>
     add_at_index_loop ok v index p pos =
       (if nat (sint index - 1 - sint pos) < length (elems p) then
          (if ok then
             Inr (chain_of (take (Suc (nat (sint index - 1 - sint pos))) (elems p) @ v #
                            drop (Suc (nat (sint index - 1 - sint pos))) (elems p)))
           else Inl Exit_Failure)
        else Inr p)"
proof (induction p arbitrary: pos rule: elems.induct)
  case 1
  then show ?case by simp
next
  case (2 cv cn)
  have i1: "sint (index - 1) = sint index - 1" using assms by (simp add: sint_pred)
  show ?case
  proof (cases "sint pos < sint index - 1")
    case True
    then have "sint pos < sint (index - 1)" using i1 by simp
    then have s: "sint (pos + 1) = sint pos + 1" by (rule sint_succ)
    have k: "nat (sint index - 1 - sint pos) = Suc (nat (sint index - 1 - sint (pos + 1)))"
      using True s by simp
    have "sint (pos + 1) \<le> sint index - 1" using True s by simp
    from "2.IH" [OF this] True i1 show ?thesis
      unfolding k by (simp add: word_sless_alt create_node_def)
  next
    case False
    with 2(2) have "sint pos = sint index - 1" by simp
    then show ?thesis using i1 by (simp add: word_sless_alt create_node_def)
  qed
qed

lemma list_add_at_index_result:
  "list_add_at_index ok (Some l) v index =
     (if sint index < 1 \<or> int (length (contents (Some l))) + 1 < sint index then Inr (Some l)
      else if ok then
        Inr (Some \<lparr>head = chain_of (take (nat (sint index) - 1) (contents (Some l)) @ v #
                                   drop (nat (sint index) - 1) (contents (Some l)))\<rparr>)
      else Inl Exit_Failure)"
proof -
  consider "sint index < 1" | "index = 1" | "2 \<le> sint index"
    using c_int_index_cases [of index] by blast
  then show ?thesis
  proof cases
    case 1
    then show ?thesis by (simp add: list_add_at_index_def word_sless_alt)
  next
    case 2
    then show ?thesis
      by (simp add: list_add_at_index_def word_sless_alt list_add_to_front_result)
  next
    case 3
    then have n1: "index \<noteq> 1" by auto
    have p: "sint (1 :: c_int) \<le> sint index - 1" using 3 by simp
    have k: "nat (sint index - 1 - sint (1 :: c_int)) = nat (sint index) - 2"
      using 3 by (simp add: nat_diff_distrib')
    have s: "Suc (nat (sint index) - 2) = nat (sint index) - 1" using 3 by simp
    have c: "nat (sint index) - 2 < length (elems (head l))
               \<longleftrightarrow> \<not> int (length (elems (head l))) + 1 < sint index"
      using 3 by auto
    show ?thesis
      using 3 n1 add_at_index_loop_chain [OF 3 p, of ok v "head l"]
      unfolding k s
      by (cases l) (auto simp: list_add_at_index_def word_sless_alt contents_def c)
  qed
qed

subsection \<open>Removal\<close>

lemma remove_from_back_loop_chain:
  "remove_from_back_loop cv n =
     (last (elems (Some n)), Node cv (chain_of (butlast (elems (Some n)))))"
  by (induction cv n rule: remove_from_back_loop.induct) (auto simp: elems_Some)

lemma list_remove_from_back_result:
  "contents (Some l) \<noteq> [] \<Longrightarrow>
   list_remove_from_back (Some l) =
     (last (contents (Some l)), Some \<lparr>head = chain_of (butlast (contents (Some l)))\<rparr>)"
  by (cases l)
     (auto simp: list_remove_from_back_def contents_def remove_from_back_loop_chain elems_Some
       split: option.split node_t.split)

lemma list_remove_from_back_empty:
  "list_remove_from_back (Some \<lparr>head = None\<rparr>) = (- 1, Some \<lparr>head = None\<rparr>)"
  by (simp add: list_remove_from_back_def)

lemma remove_from_back_times_chain:
  "remove_from_back_times k (Some \<lparr>head = chain_of xs\<rparr>)
     = Some \<lparr>head = chain_of (take (length xs - k) xs)\<rparr>"
proof (induction k arbitrary: xs)
  case 0
  then show ?case by simp
next
  case (Suc k)
  show ?case
  proof (cases "xs = []")
    case True
    with Suc [of "[]"] show ?thesis by (simp add: list_remove_from_back_empty)
  next
    case False
    then have "list_remove_from_back (Some \<lparr>head = chain_of xs\<rparr>)
                 = (last xs, Some \<lparr>head = chain_of (butlast xs)\<rparr>)"
      using list_remove_from_back_result [of "\<lparr>head = chain_of xs\<rparr>"]
      by (simp add: contents_def)
    with Suc [of "butlast xs"] show ?thesis
      by (simp add: butlast_conv_take)
  qed
qed


lemma remove_at_index_loop_chain:
  assumes "2 \<le> sint index"
  shows "sint pos \<le> sint index - 1 \<Longrightarrow>
     remove_at_index_loop index p pos =
       (if Suc (nat (sint index - 1 - sint pos)) < length (elems p) then
          (elems p ! Suc (nat (sint index - 1 - sint pos)),
           chain_of (take (Suc (nat (sint index - 1 - sint pos))) (elems p) @
                     drop (Suc (Suc (nat (sint index - 1 - sint pos)))) (elems p)))
        else (- 1, p))"
proof (induction p arbitrary: pos rule: elems.induct)
  case 1
  then show ?case by simp
next
  case (2 cv cn)
  have i1: "sint (index - 1) = sint index - 1" using assms by (simp add: sint_pred)
  show ?case
  proof (cases "sint pos < sint index - 1")
    case True
    then have "sint pos < sint (index - 1)" using i1 by simp
    then have s: "sint (pos + 1) = sint pos + 1" by (rule sint_succ)
    have k: "nat (sint index - 1 - sint pos) = Suc (nat (sint index - 1 - sint (pos + 1)))"
      using True s by simp
    have "sint (pos + 1) \<le> sint index - 1" using True s by simp
    from "2.IH" [OF this] True i1 show ?thesis
      unfolding k by (simp add: word_sless_alt)
  next
    case False
    with 2(2) have "sint pos = sint index - 1" by simp
    then show ?thesis using i1
      by (cases cn) (auto simp: word_sless_alt elems_Some)
  qed
qed

lemma list_remove_at_index_result:
  assumes "2 \<le> sint index"
  shows "list_remove_at_index (Some l) index =
     (if sint index \<le> int (length (contents (Some l))) then
        (contents (Some l) ! (nat (sint index) - 1),
         Some \<lparr>head = chain_of (take (nat (sint index) - 1) (contents (Some l)) @
                                drop (nat (sint index)) (contents (Some l)))\<rparr>)
      else (- 1, Some l))"
proof -
  have n1: "index \<noteq> 1" using assms by auto
  have p: "sint (1 :: c_int) \<le> sint index - 1" using assms by simp
  have k: "nat (sint index - 1 - sint (1 :: c_int)) = nat (sint index) - 2"
    using assms by (simp add: nat_diff_distrib')
  have s: "Suc (nat (sint index) - 2) = nat (sint index) - 1"
    "Suc (nat (sint index) - 1) = nat (sint index)" using assms by simp_all
  have c: "nat (sint index) - 1 < length (elems (head l))
             \<longleftrightarrow> sint index \<le> int (length (elems (head l)))"
    using assms by auto
  show ?thesis
    using assms n1 remove_at_index_loop_chain [OF assms p, of "head l"]
    unfolding k s
    by (cases l) (auto simp: list_remove_at_index_def word_sless_alt contents_def c)
qed

lemma list_remove_at_index_empty:
  "list_remove_at_index (Some \<lparr>head = None\<rparr>) index = (- 1, Some \<lparr>head = None\<rparr>)"
  by (simp add: list_remove_at_index_def)

subsection \<open>The allocator requests of listToString\<close>






subsection \<open>Results of the removals and the queries on every input\<close>











lemma chain_text_no_gap: "chain_text [] vs = to_string_spec vs"
  by (induction vs) auto

lemma print_chain_text:
  "concat (map (\<lambda>v. fmt_d v @ '' ->'') vs) @ ''NULL'' = chain_text '' '' vs"
  by (induction vs) auto




section \<open>The properties of the specification\<close>

text \<open>
  C1. For every sequence of values, the list built from a fresh empty list by
  \<open>list_add_to_back\<close> with each value in turn returns the i-th value from
  \<open>list_get_elem_at\<close> at every 1-based index i up to the number of values, and
  \<open>list_length\<close> returns that number: as the \<open>int\<close> it is, and so with the
  signed value equal to the number whenever the number is at most \<open>INT_MAX\<close>.
\<close>

theorem add_to_back_then_get_and_length:
  "\<exists>l. build_list vs = Inr (Some l)
     \<and> (\<forall>i. 1 \<le> sint i \<and> sint i \<le> int (length vs)
            \<longrightarrow> list_get_elem_at (Some l) i = vs ! (nat (sint i) - 1))
     \<and> list_length (Some l) = word_of_nat (length vs)
     \<and> (length vs < 2 ^ 31 \<longrightarrow> sint (list_length (Some l)) = int (length vs))"
proof -
  obtain l where l: "build_list vs = Inr (Some l)" and c: "contents (Some l) = vs"
    using build_list_contents by blast
  have g: "list_get_elem_at (Some l) i = vs ! (nat (sint i) - 1)"
    if "1 \<le> sint i \<and> sint i \<le> int (length vs)" for i
  proof -
    from that have "1 \<le> sint i" and "nat (sint i) \<le> length (contents (Some l))"
      using c by auto
    then show ?thesis using list_get_elem_at_nth [of i l] c by simp
  qed
  have n: "list_length (Some l) = word_of_nat (length vs)"
    using list_length_contents [of "Some l"] c by simp
  have "sint (list_length (Some l)) = int (length vs)" if "length vs < 2 ^ 31"
    using n sint_of_nat_c_int [OF that] by simp
  with l g n show ?thesis by blast
qed

theorem add_to_back_then_get_and_length_witness:
  "\<exists>l. build_list [3, 1, 4, 1, 5] = Inr (Some l)
     \<and> list_get_elem_at (Some l) 1 = 3
     \<and> list_get_elem_at (Some l) 2 = 1
     \<and> list_get_elem_at (Some l) 3 = 4
     \<and> list_get_elem_at (Some l) 4 = 1
     \<and> list_get_elem_at (Some l) 5 = 5
     \<and> sint (list_length (Some l)) = 5"
proof -
  let ?vs = "[3, 1, 4, 1, 5] :: elem list"
  from add_to_back_then_get_and_length [of ?vs] obtain l where
    l: "build_list ?vs = Inr (Some l)" and
    g: "\<And>i. 1 \<le> sint i \<and> sint i \<le> int (length ?vs)
          \<Longrightarrow> list_get_elem_at (Some l) i = ?vs ! (nat (sint i) - 1)" and
    n: "length ?vs < 2 ^ 31 \<longrightarrow> sint (list_length (Some l)) = int (length ?vs)"
    by blast
  have "list_get_elem_at (Some l) 1 = 3" using g [of 1] by simp
  moreover have "list_get_elem_at (Some l) 2 = 1" using g [of 2] by simp
  moreover have "list_get_elem_at (Some l) 3 = 4" using g [of 3] by simp
  moreover have "list_get_elem_at (Some l) 4 = 1" using g [of 4] by simp
  moreover have "list_get_elem_at (Some l) 5 = 5" using g [of 5] by simp
  moreover have "sint (list_length (Some l)) = 5" using n by simp
  ultimately show ?thesis using l by blast
qed


text \<open>
  C2. With every allocation served, \<open>listToString\<close> returns for a list with the
  elements \<open>v1, ..., vk\<close> exactly the text \<open>v1->v2->...->vk->NULL\<close>, for an empty list
  exactly \<open>NULL\<close>, and for the list built from 3, 1, 4, 1, 5 by \<open>list_add_to_back\<close>
  the text \<open>3->1->4->1->5->NULL\<close>. No write leaves the buffer on the way.
\<close>

theorem listToString_arrow_chain:
  "listToString unlimited (Some l) = Inr (Some (to_string_spec (contents (Some l))))
   \<and> listToString unlimited (Some \<lparr>head = None\<rparr>) = Inr (Some ''NULL'')
   \<and> (\<exists>l5. build_list [3, 1, 4, 1, 5] = Inr (Some l5)
          \<and> listToString unlimited (Some l5) = Inr (Some ''3->1->4->1->5->NULL''))"
proof -
  have e: "listToString unlimited (Some \<lparr>head = None\<rparr>) = Inr (Some ''NULL'')"
    by (simp add: listToString_granted contents_def)
  obtain l5 where b: "build_list [3, 1, 4, 1, 5] = Inr (Some l5)"
    and c: "contents (Some l5) = [3, 1, 4, 1, 5]"
    using build_list_contents by blast
  have "to_string_spec [3, 1, 4, 1, 5] = ''3->1->4->1->5->NULL''"
    by (simp add: fmt_d_def dec_digits.simps digit_char_def)
  with c have "listToString unlimited (Some l5) = Inr (Some ''3->1->4->1->5->NULL'')"
    by (simp add: listToString_granted)
  with b e listToString_granted [of l] show ?thesis by blast
qed

theorem listToString_arrow_chain_witness:
  "listToString unlimited (Some \<lparr>head = chain_of [- 7, 0, 2147483647, - 2147483648]\<rparr>)
     = Inr (Some ''-7->0->2147483647->-2147483648->NULL'')"
proof -
  have "to_string_spec [- 7, 0, 2147483647, - 2147483648]
          = ''-7->0->2147483647->-2147483648->NULL''"
    by (simp add: fmt_d_def dec_digits.simps digit_char_def)
  with listToString_arrow_chain [of "\<lparr>head = chain_of [- 7, 0, 2147483647, - 2147483648]\<rparr>"]
  show ?thesis by (simp add: contents_def)
qed





text \<open>
  C4. For every list handle and value, \<open>list_add_at_index\<close> at index 1 has the
  outcome of \<open>list_add_to_front\<close>, and at index \<open>list_length + 1\<close> the outcome of
  \<open>list_add_to_back\<close>; the sum \<open>list_length + 1\<close> is an \<open>int\<close>, so the second part
  is for lists of fewer than \<open>INT_MAX\<close> nodes.
\<close>

theorem add_at_index_at_the_ends:
  "list_add_at_index ok list v 1 = list_add_to_front ok list v
   \<and> (length (contents list) < 2 ^ 31 - 1
        \<longrightarrow> list_add_at_index ok list v (list_length list + 1) = list_add_to_back ok list v)"
proof (cases list)
  case None
  then show ?thesis
    by (simp add: list_add_at_index_def list_add_to_front_def list_add_to_back_def)
next
  case (Some l)
  have f: "list_add_at_index ok (Some l) v 1 = list_add_to_front ok (Some l) v"
    by (simp add: list_add_at_index_def word_sless_alt)
  have b: "list_add_at_index ok (Some l) v (list_length (Some l) + 1)
             = list_add_to_back ok (Some l) v"
    if n: "length (contents (Some l)) < 2 ^ 31 - 1"
  proof -
    let ?xs = "contents (Some l)"
    have "list_length (Some l) + 1 = word_of_nat (Suc (length ?xs))"
      by (simp add: list_length_contents)
    moreover have "sint (word_of_nat (Suc (length ?xs)) :: c_int) = int (Suc (length ?xs))"
      using n by (intro sint_of_nat_c_int) simp
    ultimately have i: "sint (list_length (Some l) + 1) = int (length ?xs) + 1"
      by (simp add: add.commute)
    show ?thesis
      unfolding list_add_at_index_result list_add_to_back_result i by simp
  qed
  from f b Some show ?thesis by simp
qed

theorem add_at_index_at_the_ends_witness:
  "length (contents (Some \<lparr>head = chain_of [3, 1, 4]\<rparr>)) < 2 ^ 31 - 1
   \<and> list_add_at_index True (Some \<lparr>head = chain_of [3, 1, 4]\<rparr>) 9 1
       = list_add_to_front True (Some \<lparr>head = chain_of [3, 1, 4]\<rparr>) 9
   \<and> list_add_at_index True (Some \<lparr>head = chain_of [3, 1, 4]\<rparr>) 9
         (list_length (Some \<lparr>head = chain_of [3, 1, 4]\<rparr>) + 1)
       = list_add_to_back True (Some \<lparr>head = chain_of [3, 1, 4]\<rparr>) 9
   \<and> list_add_to_back True (Some \<lparr>head = chain_of [3, 1, 4]\<rparr>) 9
       = Inr (Some \<lparr>head = chain_of [3, 1, 4, 9]\<rparr>)"
  using add_at_index_at_the_ends [of True "Some \<lparr>head = chain_of [3, 1, 4]\<rparr>" 9]
  by (simp add: contents_def list_add_to_back_def create_node_def)

text \<open>
  C5. For a list built by \<open>list_add_to_back\<close> from one or more values,
  \<open>list_remove_from_back\<close> returns the last value and leaves the values before it, so
  \<open>list_length\<close> is one less (in \<open>int\<close> arithmetic, and as signed values when the
  number of values is at most \<open>INT_MAX\<close>); as many removals as there were values
  leave the empty list.
\<close>

theorem remove_from_back_after_add_to_back:
  assumes "vs \<noteq> []"
  shows "\<exists>l l'. build_list vs = Inr (Some l)
     \<and> list_remove_from_back (Some l) = (last vs, Some l')
     \<and> contents (Some l') = butlast vs
     \<and> list_length (Some l') = list_length (Some l) - 1
     \<and> (length vs < 2 ^ 31 \<longrightarrow> sint (list_length (Some l')) = sint (list_length (Some l)) - 1)
     \<and> remove_from_back_times (length vs) (Some l) = Some \<lparr>head = None\<rparr>"
proof -
  obtain l where l: "build_list vs = Inr (Some l)" and c: "contents (Some l) = vs"
    using build_list_contents by blast
  let ?l' = "\<lparr>head = chain_of (butlast vs)\<rparr>"
  have r: "list_remove_from_back (Some l) = (last vs, Some ?l')"
    using list_remove_from_back_result [of l] assms c by simp
  have c': "contents (Some ?l') = butlast vs" by (simp add: contents_def)
  have n: "list_length (Some l) = word_of_nat (length vs)"
    using list_length_contents [of "Some l"] c by simp
  have n': "list_length (Some ?l') = word_of_nat (length vs - 1)"
    using list_length_contents [of "Some ?l'"] c' by simp
  have "1 \<le> length vs" using assms by (cases vs) auto
  then have d: "list_length (Some ?l') = list_length (Some l) - 1"
    unfolding n n' by simp
  have s: "sint (list_length (Some ?l')) = sint (list_length (Some l)) - 1"
    if b: "length vs < 2 ^ 31"
  proof -
    have "length vs - 1 < 2 ^ 31" using b by simp
    from sint_of_nat_c_int [OF this] sint_of_nat_c_int [OF b] \<open>1 \<le> length vs\<close>
    show ?thesis unfolding n n' by simp
  qed
  have "l = \<lparr>head = chain_of vs\<rparr>" using c by (cases l) (auto simp: contents_def)
  then have t: "remove_from_back_times (length vs) (Some l) = Some \<lparr>head = None\<rparr>"
    using remove_from_back_times_chain [of "length vs" vs] by simp
  from l r c' d s t show ?thesis by blast
qed

theorem remove_from_back_after_add_to_back_witness:
  "\<exists>l l'. build_list [3, 1, 4] = Inr (Some l)
     \<and> list_remove_from_back (Some l) = (4, Some l')
     \<and> contents (Some l') = [3, 1]
     \<and> sint (list_length (Some l')) = sint (list_length (Some l)) - 1
     \<and> remove_from_back_times 3 (Some l) = Some \<lparr>head = None\<rparr>"
proof -
  have "[3, 1, 4] \<noteq> ([] :: elem list)" by simp
  from remove_from_back_after_add_to_back [OF this] obtain l l' where
    "build_list [3, 1, 4] = Inr (Some l)"
    "list_remove_from_back (Some l) = (last [3, 1, 4], Some l')"
    "contents (Some l') = butlast [3, 1, 4]"
    "length [3, 1, 4 :: elem] < 2 ^ 31
       \<longrightarrow> sint (list_length (Some l')) = sint (list_length (Some l)) - 1"
    "remove_from_back_times (length [3, 1, 4 :: elem]) (Some l) = Some \<lparr>head = None\<rparr>"
    by blast
  then have
    "build_list [3, 1, 4] = Inr (Some l)
     \<and> list_remove_from_back (Some l) = (4, Some l')
     \<and> contents (Some l') = [3, 1]
     \<and> sint (list_length (Some l')) = sint (list_length (Some l)) - 1
     \<and> remove_from_back_times 3 (Some l) = Some \<lparr>head = None\<rparr>"
    by (simp add: numeral_3_eq_3)
  then show ?thesis by blast
qed

text \<open>
  C6. \<open>list_add_at_index\<close> with an index below 1 or above length + 1 returns with the
  list as it was, whatever \<open>malloc\<close> would have answered.
\<close>

theorem add_at_index_out_of_range_is_no_op:
  assumes "sint index < 1 \<or> int (length (contents list)) + 1 < sint index"
  shows "list_add_at_index ok list v index = Inr list"
proof (cases list)
  case None
  then show ?thesis by (simp add: list_add_at_index_def)
next
  case (Some l)
  with assms show ?thesis by (simp add: list_add_at_index_result)
qed

theorem add_at_index_out_of_range_is_no_op_witness:
  "list_add_at_index True (Some \<lparr>head = chain_of [3, 1, 4]\<rparr>) 9 0
     = Inr (Some \<lparr>head = chain_of [3, 1, 4]\<rparr>)
   \<and> list_add_at_index True (Some \<lparr>head = chain_of [3, 1, 4]\<rparr>) 9 5
     = Inr (Some \<lparr>head = chain_of [3, 1, 4]\<rparr>)
   \<and> list_add_at_index True (Some \<lparr>head = chain_of [3, 1, 4]\<rparr>) 9 (- 2)
     = Inr (Some \<lparr>head = chain_of [3, 1, 4]\<rparr>)"
proof -
  let ?L = "Some \<lparr>head = chain_of [3, 1, 4]\<rparr>"
  have "list_add_at_index True ?L 9 0 = Inr ?L"
    by (rule add_at_index_out_of_range_is_no_op) simp
  moreover have "list_add_at_index True ?L 9 5 = Inr ?L"
    by (rule add_at_index_out_of_range_is_no_op) (simp add: contents_def)
  moreover have "list_add_at_index True ?L 9 (- 2) = Inr ?L"
    by (rule add_at_index_out_of_range_is_no_op) simp
  ultimately show ?thesis by simp
qed

text \<open>
  C7. On the empty list (the one \<open>list_alloc\<close> returns) \<open>list_remove_from_back\<close>,
  \<open>list_remove_from_front\<close> and \<open>list_remove_at_index\<close>, at any index, return the
  sentinel -1 and leave the list empty.
\<close>

theorem removals_fail_on_empty_list:
  "list_alloc True = Some \<lparr>head = None\<rparr>
   \<and> list_remove_from_back (Some \<lparr>head = None\<rparr>) = (- 1, Some \<lparr>head = None\<rparr>)
   \<and> list_remove_from_front (Some \<lparr>head = None\<rparr>) = (- 1, Some \<lparr>head = None\<rparr>)
   \<and> list_remove_at_index (Some \<lparr>head = None\<rparr>) index = (- 1, Some \<lparr>head = None\<rparr>)
   \<and> list_length (Some \<lparr>head = None\<rparr>) = 0"
  by (simp add: list_alloc_def list_remove_from_back_def list_remove_from_front_def
      list_remove_at_index_def list_length_def)

theorem removals_fail_on_empty_list_witness:
  "list_remove_at_index (list_alloc True) 1 = (- 1, list_alloc True)
   \<and> list_remove_at_index (list_alloc True) 2 = (- 1, list_alloc True)
   \<and> list_remove_from_back (list_alloc True) = (- 1, list_alloc True)
   \<and> list_remove_from_front (list_alloc True) = (- 1, list_alloc True)"
  using removals_fail_on_empty_list [of 1] removals_fail_on_empty_list [of 2]
  by simp

text \<open>
  C8. For a list that is neither null nor empty, \<open>list_print\<close> writes the content of
  the string \<open>listToString\<close> returns: both are the values in decimal, in order, each
  followed by the arrow, and then \<open>NULL\<close>. \<open>list_print\<close> puts one space between a
  value and its arrow and ends the line; with the spaces removed, its text is the string
  of \<open>listToString\<close> followed by the newline.
\<close>

theorem list_print_has_content_of_listToString:
  assumes "head l \<noteq> None"
  shows "list_print (Some l) = chain_text '' '' (contents (Some l)) @ [CHR 0x0A]
       \<and> listToString unlimited (Some l) = Inr (Some (chain_text [] (contents (Some l))))
       \<and> (\<exists>s. listToString unlimited (Some l) = Inr (Some s)
               \<and> filter (\<lambda>c. c \<noteq> CHR '' '') (list_print (Some l)) = s @ [CHR 0x0A])"
proof -
  have p: "list_print (Some l) = chain_text '' '' (contents (Some l)) @ [CHR 0x0A]"
    using list_print_nonempty [OF assms] print_chain_text [of "contents (Some l)"] by simp
  have s: "listToString unlimited (Some l) = Inr (Some (chain_text [] (contents (Some l))))"
    by (simp add: listToString_granted chain_text_no_gap)
  have "filter (\<lambda>c. c \<noteq> CHR '' '') (list_print (Some l))
          = to_string_spec (contents (Some l)) @ [CHR 0x0A]"
    unfolding list_print_nonempty [OF assms] by (rule filter_print_chain)
  with p s show ?thesis by (simp add: chain_text_no_gap)
qed

theorem list_print_has_content_of_listToString_witness:
  "head \<lparr>head = chain_of [3, - 1]\<rparr> \<noteq> None
   \<and> list_print (Some \<lparr>head = chain_of [3, - 1]\<rparr>) = ''3 ->-1 ->NULL'' @ [CHR 0x0A]
   \<and> listToString unlimited (Some \<lparr>head = chain_of [3, - 1]\<rparr>) = Inr (Some ''3->-1->NULL'')"
proof -
  have h: "head \<lparr>head = chain_of [3, - 1]\<rparr> \<noteq> None" by simp
  have c: "contents (Some \<lparr>head = chain_of [3, - 1]\<rparr>) = [3, - 1]" by (simp add: contents_def)
  have "chain_text '' '' [3, - 1] = ''3 ->-1 ->NULL''"
    and "chain_text [] [3, - 1] = ''3->-1->NULL''"
    by (simp_all add: fmt_d_def dec_digits.simps digit_char_def)
  with list_print_has_content_of_listToString [OF h] h c show ?thesis by simp
qed

text \<open>
  C9. For a list with the elements \<open>v1, ..., vk\<close> and an index i from 2 to k,
  \<open>list_remove_at_index\<close> returns \<open>vi\<close> and leaves the list with
  \<open>v1, ..., v(i-1), v(i+1), ..., vk\<close> in that order.
\<close>

theorem remove_at_index_inner:
  assumes "2 \<le> sint i" and "sint i \<le> int (length (contents (Some l)))"
  shows "\<exists>l'. list_remove_at_index (Some l) i = (contents (Some l) ! (nat (sint i) - 1), Some l')
           \<and> contents (Some l') = take (nat (sint i) - 1) (contents (Some l)) @
                                    drop (nat (sint i)) (contents (Some l))"
  using assms by (simp add: list_remove_at_index_result contents_def)

theorem remove_at_index_inner_witness:
  "\<exists>l'. list_remove_at_index (Some \<lparr>head = chain_of [10, 20, 30, 40]\<rparr>) 3 = (30, Some l')
         \<and> contents (Some l') = [10, 20, 40]"
  using remove_at_index_inner [of 3 "\<lparr>head = chain_of [10, 20, 30, 40]\<rparr>"]
  by (simp add: contents_def)

text \<open>
  C10. With a null list handle every operation returns: the insertions do nothing, the
  removals and the lookups return -1, \<open>list_is_in\<close> returns false, \<open>list_length\<close>
  returns 0, \<open>listToString\<close> returns \<open>NULL\<close>, \<open>list_print\<close> writes
  \<open>LIST IS NULL\<close> and \<open>list_free\<close> releases nothing.
\<close>

theorem null_list_is_tolerated:
  "list_add_to_back ok None v = Inr None
   \<and> list_add_to_front ok None v = Inr None
   \<and> list_add_at_index ok None v index = Inr None
   \<and> list_remove_from_back None = (- 1, None)
   \<and> list_remove_from_front None = (- 1, None)
   \<and> list_remove_at_index None index = (- 1, None)
   \<and> list_get_elem_at None index = - 1
   \<and> list_get_index_of None v = - 1
   \<and> list_is_in None v = False
   \<and> list_length None = 0
   \<and> listToString grant None = Inr None
   \<and> list_print None = ''LIST IS NULL'' @ [CHR 0x0A]
   \<and> list_free None = 0"
  by (simp add: list_add_to_back_def list_add_to_front_def list_add_at_index_def
      list_remove_from_back_def list_remove_from_front_def list_remove_at_index_def
      list_get_elem_at_def list_get_index_of_def list_is_in_def list_length_def
      listToString_def list_print_def list_free_def)

theorem null_list_is_tolerated_witness:
  "list_add_at_index False None 5 1 = Inr None
   \<and> list_remove_at_index None 1 = (- 1, None)
   \<and> list_get_elem_at None 1 = - 1
   \<and> listToString exhausted None = Inr None"
  using null_list_is_tolerated [of False 5 1 exhausted]
  by simp
end
